theory Spec2Isabelle
  imports Main "HOL-Library.AList"
begin

section \<open>Text streams\<close>

text \<open>
  The constructor receives an \<^verbatim>\<open>IOBase\<close>; the repository's own example passes a
  \<^verbatim>\<open>StringIO\<close>. A stream is its text together with the read position, counted in
  characters from the start. \<^verbatim>\<open>readline\<close> returns the text from the position up to
  and including the next line feed, or the rest of the text when there is none, and
  the empty string at the end of the text; \<^verbatim>\<open>tell\<close> reports the position and
  \<^verbatim>\<open>seek\<close> sets it.
\<close>

record stream =
  content :: string
  pos :: nat

definition open_file :: "string \<Rightarrow> stream" where
  "open_file s = \<lparr>content = s, pos = 0\<rparr>"

fun take_line :: "string \<Rightarrow> string" where
  "take_line [] = []"
| "take_line (c # cs) = (if c = CHR 0x0A then [c] else c # take_line cs)"

definition readline :: "stream \<Rightarrow> string \<times> stream" where
  "readline f =
     (let line = take_line (drop (pos f) (content f))
      in (line, f\<lparr>pos := pos f + length line\<rparr>))"

definition tell :: "stream \<Rightarrow> nat" where
  "tell f = pos f"

definition seek :: "stream \<Rightarrow> nat \<Rightarrow> stream" where
  "seek f p = f\<lparr>pos := p\<rparr>"

section \<open>Parsing one record against the header\<close>

definition SEPARATOR :: char where
  "SEPARATOR = CHR '',''"

text \<open>\<^verbatim>\<open>str.split(sep)\<close> with a one-character separator: always at least one field.\<close>

fun str_split :: "char \<Rightarrow> string \<Rightarrow> string list" where
  "str_split sep [] = [[]]"
| "str_split sep (c # cs) =
     (if c = sep then [] # str_split sep cs
      else (case str_split sep cs of
              [] \<Rightarrow> [[c]]
            | w # ws \<Rightarrow> (c # w) # ws))"

text \<open>
  The characters \<^verbatim>\<open>str.strip()\<close> removes, among the code points below 256: the
  ASCII controls 9 to 13 and 28 to 31, the space, NEL (133) and the no-break space (160).
\<close>

definition isspace :: "char \<Rightarrow> bool" where
  "isspace c =
     (let n = (of_char c :: nat)
      in (9 \<le> n \<and> n \<le> 13) \<or> (28 \<le> n \<and> n \<le> 32) \<or> n = 133 \<or> n = 160)"

definition str_strip :: "string \<Rightarrow> string" where
  "str_strip s = rev (dropWhile isspace (rev (dropWhile isspace s)))"

text \<open>
  A Python \<^verbatim>\<open>dict\<close> keeps its keys in insertion order, each once; storing under a key
  that is present replaces the value in place. \<^verbatim>\<open>dict(pairs)\<close> stores the pairs from
  left to right.
\<close>

type_synonym dict = "(string \<times> string) list"

definition dict_of :: "(string \<times> string) list \<Rightarrow> dict" where
  "dict_of ps = fold (\<lambda>(k, v) d. AList.update k v d) ps []"

definition get_dictionary :: "string \<Rightarrow> string \<Rightarrow> dict" where
  "get_dictionary header line =
     (let header_list = map str_strip (str_split SEPARATOR header);
          line_list = map str_strip (str_split SEPARATOR line)
      in dict_of (zip header_list line_list))"

section \<open>The indexed reader\<close>

definition CHUNK_SIZE :: int where
  "CHUNK_SIZE = 1000"

datatype error = KeyError | ZeroDivisionError | StopIteration

record CSVFile =
  chunk_size :: int
  lines_locations :: "int \<rightharpoonup> nat"
  file_obj :: stream
  header :: string
  iter_line :: int
  file_length :: int

text \<open>
  The scan of the constructor: \<open>c\<close> is \<^verbatim>\<open>self.chunk_size\<close>, which the constructor
  has set to \<^verbatim>\<open>CHUNK_SIZE\<close> before the loop starts. The loop ends at the first empty
  \<^verbatim>\<open>readline\<close>, and returns the stream, the line counter and the index.
\<close>

function index_loop :: "int \<Rightarrow> stream \<Rightarrow> int \<Rightarrow> (int \<rightharpoonup> nat) \<Rightarrow> stream \<times> int \<times> (int \<rightharpoonup> nat)" where
  "index_loop c f line_num locs =
     (if fst (readline f) = [] then (snd (readline f), line_num, locs)
      else
        (let f' = snd (readline f);
             location = tell f';
             locs' = (if (line_num - 1) mod c = 0 then locs(line_num \<mapsto> location) else locs)
         in index_loop c f' (line_num + 1) locs'))"
  by pat_completeness auto

lemma take_line_length_le: "length (take_line s) \<le> length s"
  by (induction s) auto

lemma take_line_eq_Nil [simp]: "take_line s = [] \<longleftrightarrow> s = []"
  by (cases s) auto

lemma readline_advances:
  assumes "fst (readline f) \<noteq> []"
  shows "length (content (snd (readline f))) - pos (snd (readline f)) < length (content f) - pos f"
proof -
  let ?r = "drop (pos f) (content f)"
  have ne: "?r \<noteq> []"
    using assms by (simp add: readline_def Let_def)
  then have lt: "pos f < length (content f)"
    by simp
  have le: "length (take_line ?r) \<le> length (content f) - pos f"
    using take_line_length_le [of ?r] by simp
  have "take_line ?r \<noteq> []"
    using ne by simp
  then have gt: "0 < length (take_line ?r)"
    by (simp del: take_line_eq_Nil)
  have "length (content f) - (pos f + length (take_line ?r)) < length (content f) - pos f"
    using lt le gt by arith
  then show ?thesis
    by (simp add: readline_def Let_def)
qed

termination index_loop
  by (relation "measure (\<lambda>(c, f, line_num, locs). length (content f) - pos f)")
     (simp_all add: readline_advances)

declare index_loop.simps [simp del]

definition init :: "stream \<Rightarrow> CSVFile" where
  "init f0 =
     (let c = CHUNK_SIZE;
          (f1, line_num, locs) = index_loop c f0 1 Map.empty;
          f2 = seek f1 0;
          (hdr, f3) = readline f2
      in \<lparr>chunk_size = c, lines_locations = locs, file_obj = f3, header = hdr,
          iter_line = 1, file_length = line_num - 2\<rparr>)"

definition get_file_length :: "CSVFile \<Rightarrow> int" where
  "get_file_length self = file_length self"

definition get_header :: "CSVFile \<Rightarrow> string" where
  "get_header self = header self"

text \<open>
  \<^verbatim>\<open>int(a / b)\<close>: the quotient rounded towards zero. The source divides in floating
  point; the quotient is exact for operands below \<open>2^53\<close> in absolute value, which is
  the range modelled.
\<close>

definition trunc_div :: "int \<Rightarrow> int \<Rightarrow> int" where
  "trunc_div a b = sgn a * sgn b * (\<bar>a\<bar> div \<bar>b\<bar>)"

definition start_of_chunk_line :: "int \<Rightarrow> int \<Rightarrow> int" where
  "start_of_chunk_line line_number c = trunc_div line_number c * c + 1"

text \<open>The loop \<^verbatim>\<open>while counter < offset: file.readline(); counter += 1\<close>.\<close>

function skip_lines :: "stream \<Rightarrow> int \<Rightarrow> int \<Rightarrow> stream" where
  "skip_lines f counter offset =
     (if counter < offset then skip_lines (snd (readline f)) (counter + 1) offset else f)"
  by pat_completeness auto
termination
  by (relation "measure (\<lambda>(f, counter, offset). nat (offset - counter))") auto

declare skip_lines.simps [simp del]

definition get_line :: "CSVFile \<Rightarrow> int \<Rightarrow> (error + dict) \<times> CSVFile" where
  "get_line self line_number =
     (if chunk_size self = 0 then (Inl ZeroDivisionError, self)
      else
        (case lines_locations self (start_of_chunk_line line_number (chunk_size self)) of
           None \<Rightarrow> (Inl KeyError, self)
         | Some location \<Rightarrow>
             (let f1 = seek (file_obj self) location;
                  offset = line_number mod chunk_size self;
                  f2 = skip_lines f1 1 offset;
                  (line, f3) = readline f2
              in (Inr (get_dictionary (header self) line), self\<lparr>file_obj := f3\<rparr>))))"

text \<open>\<^verbatim>\<open>__next__\<close>; the end of the iteration is the exception \<^verbatim>\<open>StopIteration\<close>.\<close>

definition csv_next :: "CSVFile \<Rightarrow> (error + dict) \<times> CSVFile" where
  "csv_next self =
     (let self1 = self\<lparr>iter_line := iter_line self + 1\<rparr>
      in if iter_line self1 \<le> file_length self1 then get_line self1 (iter_line self1)
         else (Inl StopIteration, self1))"

text \<open>\<^verbatim>\<open>get_iter\<close> sets the cursor and returns \<^verbatim>\<open>iter(self)\<close>, the object itself.\<close>

definition get_iter :: "CSVFile \<Rightarrow> int \<Rightarrow> CSVFile" where
  "get_iter self line_number = self\<lparr>iter_line := line_number - 1\<rparr>"

definition get_line_iterating :: "stream \<Rightarrow> int \<Rightarrow> string \<times> stream" where
  "get_line_iterating f line_num = readline (skip_lines f 1 line_num)"

section \<open>The lines of a text\<close>

text \<open>
  The lines of a text as successive calls of \<^verbatim>\<open>readline\<close> from its start return
  them, each with its line feed (the last one possibly without). \<open>line_at ls i\<close> is
  what \<^verbatim>\<open>readline\<close> returns in front of line \<open>i\<close> (counted from 0), the empty string
  past the last line, and \<open>offset_of ls i\<close> is the position where line \<open>i\<close> starts.
\<close>

function lines_of :: "string \<Rightarrow> string list" where
  "lines_of s =
     (if s = [] then [] else take_line s # lines_of (drop (length (take_line s)) s))"
  by pat_completeness auto

lemma take_line_length_pos: "s \<noteq> [] \<Longrightarrow> 0 < length (take_line s)"
  by (cases s) auto

termination lines_of
  by (relation "measure length") (simp_all add: take_line_length_pos)

declare lines_of.simps [simp del]

definition line_at :: "string list \<Rightarrow> nat \<Rightarrow> string" where
  "line_at ls i = (if i < length ls then ls ! i else [])"

definition offset_of :: "string list \<Rightarrow> nat \<Rightarrow> nat" where
  "offset_of ls i = length (concat (take i ls))"

text \<open>
  The reference of the repository's self-test (\<^verbatim>\<open>main\<close>): read the header from the start
  of the stream, then scan to line \<open>n\<close> after it with \<^verbatim>\<open>get_line_iterating\<close> and parse
  that line against the header.
\<close>

definition linear_scan_record :: "string \<Rightarrow> int \<Rightarrow> dict" where
  "linear_scan_record s n =
     (let (hdr, f) = readline (open_file s)
      in get_dictionary hdr (fst (get_line_iterating f n)))"

text \<open>
  The index over the lines \<open>ls\<close> of a text with chunk size \<open>c\<close>: the keys are the numbers
  \<open>k\<close> from 1 to the number of lines (the header included) with \<open>k - 1\<close> a multiple of
  \<open>c\<close>, and key \<open>k\<close> holds the position after the first \<open>k\<close> lines.
\<close>

definition index_of :: "int \<Rightarrow> string list \<Rightarrow> (int \<rightharpoonup> nat)" where
  "index_of c ls =
     (\<lambda>k. if 1 \<le> k \<and> k \<le> int (length ls) \<and> (k - 1) mod c = 0
          then Some (offset_of ls (nat k)) else None)"

section \<open>Iteration, references and call histories\<close>

lemma get_line_cursor [simp]:
  "iter_line (snd (get_line self n)) = iter_line self"
  "file_length (snd (get_line self n)) = file_length self"
  by (simp_all add: get_line_def Let_def split: option.splits prod.splits)

lemma csv_next_advances:
  assumes "fst (csv_next self) = Inr d"
  shows "nat (file_length (snd (csv_next self)) - iter_line (snd (csv_next self)))
           < nat (file_length self - iter_line self)"
proof (cases "iter_line self + 1 \<le> file_length self")
  case True
  then show ?thesis
    by (simp add: csv_next_def Let_def)
next
  case False
  then have "fst (csv_next self) = Inl StopIteration"
    by (simp add: csv_next_def Let_def)
  with assms show ?thesis
    by simp
qed

text \<open>
  A \<^verbatim>\<open>for\<close> loop over the iterator: it calls \<^verbatim>\<open>__next__\<close> until an exception is
  raised. The result is the list of the records yielded and the exception that ended
  the loop: \<^verbatim>\<open>StopIteration\<close> is the regular end, any other one propagates.
\<close>

function consume :: "CSVFile \<Rightarrow> dict list \<times> error" where
  "consume self =
     (case fst (csv_next self) of
        Inl e \<Rightarrow> ([], e)
      | Inr d \<Rightarrow> (d # fst (consume (snd (csv_next self))), snd (consume (snd (csv_next self)))))"
  by pat_completeness auto
termination
proof -
  have step: "(snd (csv_next self), self) \<in> measure (\<lambda>self. nat (file_length self - iter_line self))"
    if "fst (csv_next self) = Inr d" for self d
    unfolding in_measure using that by (rule csv_next_advances)
  show ?thesis
    by (relation "measure (\<lambda>self. nat (file_length self - iter_line self))")
       (simp, (erule step)+)
qed

declare consume.simps [simp del]

text \<open>
  Objects are referred to by reference. \<^verbatim>\<open>get_iter\<close> returns \<^verbatim>\<open>iter(self)\<close>, and
  \<^verbatim>\<open>__iter__\<close> returns \<^verbatim>\<open>self\<close>: the iterator handed out is the reference it was
  called on. The store maps each reference to the state of its object.
\<close>

type_synonym ref = nat

type_synonym store = "ref \<Rightarrow> CSVFile"

definition obj_get_iter :: "store \<Rightarrow> ref \<Rightarrow> int \<Rightarrow> ref \<times> store" where
  "obj_get_iter h r line_number = (r, h(r := get_iter (h r) line_number))"

definition obj_next :: "store \<Rightarrow> ref \<Rightarrow> (error + dict) \<times> store" where
  "obj_next h it = (fst (csv_next (h it)), h(it := snd (csv_next (h it))))"

text \<open>
  The calls a client can make between two lookups: the methods of the object, and, as
  the client holds the stream it passed to the constructor (\<^verbatim>\<open>main\<close> reads from it),
  reads and seeks on the stream itself.
\<close>

datatype call = GetLine int | Next | GetIter int | GetFileLength | GetHeader
  | FileSeek nat | FileReadline

fun do_call :: "CSVFile \<Rightarrow> call \<Rightarrow> CSVFile" where
  "do_call self (GetLine n) = snd (get_line self n)"
| "do_call self Next = snd (csv_next self)"
| "do_call self (GetIter n) = get_iter self n"
| "do_call self GetFileLength = self"
| "do_call self GetHeader = self"
| "do_call self (FileSeek p) = self\<lparr>file_obj := seek (file_obj self) p\<rparr>"
| "do_call self FileReadline = self\<lparr>file_obj := snd (readline (file_obj self))\<rparr>"

definition do_calls :: "CSVFile \<Rightarrow> call list \<Rightarrow> CSVFile" where
  "do_calls self cs = fold (\<lambda>c self'. do_call self' c) cs self"

text \<open>
  The chunk start as the specification computes it, \<open>floor((n - 1) / chunk_size) *
  chunk_size + 1\<close>, to compare with \<open>start_of_chunk_line\<close>.
\<close>

definition spec_chunk_start :: "int \<Rightarrow> int \<Rightarrow> int" where
  "spec_chunk_start n c = ((n - 1) div c) * c + 1"

text \<open>
  What stays fixed in an instance built from the text \<open>s\<close>: everything but the read
  position of the stream and the cursor.
\<close>

definition built_from :: "string \<Rightarrow> CSVFile \<Rightarrow> bool" where
  "built_from s self \<longleftrightarrow>
     chunk_size self = CHUNK_SIZE \<and>
     lines_locations self = index_of CHUNK_SIZE (lines_of s) \<and>
     content (file_obj self) = s \<and>
     header self = line_at (lines_of s) 0 \<and>
     file_length self = int (length (lines_of s)) - 1"

text \<open>A stream with the header \<^verbatim>\<open>h\<close> and 1000 records \<^verbatim>\<open>x\<close>, one chunk exactly.\<close>

definition thousand_records :: string where
  "thousand_records = ''h\<newline>'' @ concat (replicate 1000 ''x\<newline>'')"

text \<open>
  A scenario with two iterators on one object, built from a stream with the header
  \<^verbatim>\<open>h\<close> and the records \<^verbatim>\<open>1\<close> to \<^verbatim>\<open>4\<close>: \<^verbatim>\<open>it1 = o.get_iter(1)\<close>, one advance of
  \<^verbatim>\<open>it1\<close>, then \<^verbatim>\<open>it2 = o.get_iter(3)\<close> and one advance of \<^verbatim>\<open>it2\<close>.
\<close>

definition four_records :: string where
  "four_records = ''h\<newline>1\<newline>2\<newline>3\<newline>4\<newline>''"

definition store0 :: store where
  "store0 = (\<lambda>r. init (open_file four_records))"

definition it1 :: ref where
  "it1 = fst (obj_get_iter store0 0 1)"

definition store1 :: store where
  "store1 = snd (obj_get_iter store0 0 1)"

definition store2 :: store where
  "store2 = snd (obj_next store1 it1)"

definition it2 :: ref where
  "it2 = fst (obj_get_iter store2 0 3)"

definition store3 :: store where
  "store3 = snd (obj_get_iter store2 0 3)"

definition store4 :: store where
  "store4 = snd (obj_next store3 it2)"

text \<open>\<^verbatim>\<open>sep.join(words)\<close>, to say what \<open>str_split\<close> computes.\<close>

fun str_join :: "char \<Rightarrow> string list \<Rightarrow> string" where
  "str_join sep [] = []"
| "str_join sep [w] = w"
| "str_join sep (w # v # ws) = w @ sep # str_join sep (v # ws)"

section \<open>Reading line by line\<close>

lemma lines_of_Nil [simp]: "lines_of [] = []"
  by (simp add: lines_of.simps)

lemma lines_of_nonempty:
  "s \<noteq> [] \<Longrightarrow> lines_of s = take_line s # lines_of (drop (length (take_line s)) s)"
  by (subst lines_of.simps) simp

lemma lines_of_eq_Nil [simp]: "lines_of s = [] \<longleftrightarrow> s = []"
  using lines_of_nonempty [of s] by (cases "s = []") auto

lemma take_line_append_drop: "take_line s @ drop (length (take_line s)) s = s"
  by (induction s) auto

lemma concat_lines_of: "concat (lines_of s) = s"
proof (induction s rule: lines_of.induct)
  case (1 s)
  show ?case
  proof (cases "s = []")
    case True
    then show ?thesis by simp
  next
    case False
    have "lines_of s = take_line s # lines_of (drop (length (take_line s)) s)"
      using False by (rule lines_of_nonempty)
    then show ?thesis
      using 1 False by (simp add: take_line_append_drop)
  qed
qed

lemma take_line_concat_drop:
  "take_line (concat (drop i (lines_of s))) = line_at (lines_of s) i"
proof (induction s arbitrary: i rule: lines_of.induct)
  case (1 s)
  show ?case
  proof (cases "s = []")
    case True
    then show ?thesis by (simp add: line_at_def)
  next
    case False
    let ?t = "drop (length (take_line s)) s"
    have ls: "lines_of s = take_line s # lines_of ?t"
      using False by (rule lines_of_nonempty)
    show ?thesis
    proof (cases i)
      case 0
      have "concat (drop 0 (lines_of s)) = s"
        by (simp add: concat_lines_of)
      then show ?thesis
        using 0 ls by (simp add: line_at_def)
    next
      case (Suc j)
      have "take_line (concat (drop j (lines_of ?t))) = line_at (lines_of ?t) j"
        using 1 False by simp
      then show ?thesis
        using Suc ls by (simp add: line_at_def)
    qed
  qed
qed

lemma drop_offset_of:
  "drop (offset_of (lines_of s) i) s = concat (drop i (lines_of s))"
proof -
  have "s = concat (take i (lines_of s)) @ concat (drop i (lines_of s))"
    by (metis append_take_drop_id concat_append concat_lines_of)
  then have "drop (length (concat (take i (lines_of s)))) s = concat (drop i (lines_of s))"
    by (metis append_eq_conv_conj)
  then show ?thesis
    by (simp add: offset_of_def)
qed

lemma offset_of_Suc:
  "offset_of ls (Suc i) = offset_of ls i + length (line_at ls i)"
  by (cases "i < length ls") (simp_all add: offset_of_def line_at_def take_Suc_conv_app_nth)

lemma offset_of_0 [simp]: "offset_of ls 0 = 0"
  by (simp add: offset_of_def)

lemma offset_of_end: "length ls \<le> i \<Longrightarrow> offset_of ls i = length (concat ls)"
  by (simp add: offset_of_def)

lemma readline_at:
  assumes "content f = s" and "pos f = offset_of (lines_of s) i"
  shows "readline f = (line_at (lines_of s) i, f\<lparr>pos := offset_of (lines_of s) (Suc i)\<rparr>)"
  using assms
  by (simp add: readline_def Let_def drop_offset_of take_line_concat_drop offset_of_Suc)

lemma skip_lines_at:
  assumes "content f = s" and "pos f = offset_of (lines_of s) i"
  shows "skip_lines f counter offset = f\<lparr>pos := offset_of (lines_of s) (i + nat (offset - counter))\<rparr>"
  using assms
proof (induction f counter offset arbitrary: i rule: skip_lines.induct)
  case (1 f counter offset)
  show ?case
  proof (cases "counter < offset")
    case True
    let ?f' = "snd (readline f)"
    have rl: "?f' = f\<lparr>pos := offset_of (lines_of s) (Suc i)\<rparr>"
      using 1(2,3) by (simp add: readline_at)
    have eq: "Suc i + nat (offset - (counter + 1)) = i + nat (offset - counter)"
      using True by simp
    have "skip_lines ?f' (counter + 1) offset =
            ?f'\<lparr>pos := offset_of (lines_of s) (Suc i + nat (offset - (counter + 1)))\<rparr>"
      using True rl 1(2) by (intro 1(1)) simp_all
    then have "skip_lines ?f' (counter + 1) offset =
            ?f'\<lparr>pos := offset_of (lines_of s) (i + nat (offset - counter))\<rparr>"
      by (simp only: eq)
    also have "\<dots> = f\<lparr>pos := offset_of (lines_of s) (i + nat (offset - counter))\<rparr>"
      by (simp add: rl)
    finally have "skip_lines ?f' (counter + 1) offset =
            f\<lparr>pos := offset_of (lines_of s) (i + nat (offset - counter))\<rparr>" .
    then show ?thesis
      using True by (subst skip_lines.simps) simp
  next
    case False
    then show ?thesis
      using 1(3) by (subst skip_lines.simps) simp
  qed
qed

lemma lines_of_not_Nil: "l \<in> set (lines_of s) \<Longrightarrow> l \<noteq> []"
proof (induction s rule: lines_of.induct)
  case (1 s)
  show ?case
  proof (cases "s = []")
    case True
    with 1(2) show ?thesis by simp
  next
    case False
    have "lines_of s = take_line s # lines_of (drop (length (take_line s)) s)"
      using False by (rule lines_of_nonempty)
    then have "l = take_line s \<or> l \<in> set (lines_of (drop (length (take_line s)) s))"
      using 1(2) by simp
    then show ?thesis
    proof
      assume "l = take_line s"
      then show ?thesis
        using False by simp
    next
      assume "l \<in> set (lines_of (drop (length (take_line s)) s))"
      then show ?thesis
        using False by (rule 1(1) [rotated])
    qed
  qed
qed

lemma line_at_eq_Nil: "line_at (lines_of s) i = [] \<longleftrightarrow> length (lines_of s) \<le> i"
  using lines_of_not_Nil [of "lines_of s ! i" s]
  by (auto simp: line_at_def)

section \<open>The scan of the constructor\<close>

lemma index_loop_at:
  assumes "content f = s" and "pos f = offset_of (lines_of s) i" and "i \<le> length (lines_of s)"
  shows "index_loop c f L locs =
           (f\<lparr>pos := length s\<rparr>, L + int (length (lines_of s) - i),
            (\<lambda>k. if L \<le> k \<and> k < L + int (length (lines_of s) - i) \<and> (k - 1) mod c = 0
                 then Some (offset_of (lines_of s) (Suc (i + nat (k - L)))) else locs k))"
  using assms
proof (induction c f L locs arbitrary: i rule: index_loop.induct)
  case (1 c f L locs)
  let ?ls = "lines_of s"
  let ?N = "length ?ls"
  have rl: "readline f = (line_at ?ls i, f\<lparr>pos := offset_of ?ls (Suc i)\<rparr>)"
    using 1(2,3) by (rule readline_at)
  show ?case
  proof (cases "i < ?N")
    case False
    then have iN: "i = ?N"
      using 1(4) by simp
    have "offset_of ?ls (Suc i) = length s"
      using iN by (simp add: offset_of_end concat_lines_of)
    moreover have "line_at ?ls i = []"
      using iN by (simp add: line_at_eq_Nil)
    moreover have "(\<lambda>k. if L \<le> k \<and> k < L + int (?N - i) \<and> (k - 1) mod c = 0
                 then Some (offset_of ?ls (Suc (i + nat (k - L)))) else locs k) = locs"
      using iN by (auto simp: fun_eq_iff)
    ultimately show ?thesis
      using iN rl by (subst index_loop.simps) simp
  next
    case True
    let ?f' = "f\<lparr>pos := offset_of ?ls (Suc i)\<rparr>"
    let ?locs' = "if (L - 1) mod c = 0 then locs(L \<mapsto> offset_of ?ls (Suc i)) else locs"
    define F1 where "F1 =
      (\<lambda>k. if L + 1 \<le> k \<and> k < (L + 1) + int (?N - Suc i) \<and> (k - 1) mod c = 0
           then Some (offset_of ?ls (Suc (Suc i + nat (k - (L + 1))))) else ?locs' k)"
    define F2 where "F2 =
      (\<lambda>k. if L \<le> k \<and> k < L + int (?N - i) \<and> (k - 1) mod c = 0
           then Some (offset_of ?ls (Suc (i + nat (k - L)))) else locs k)"
    have ne: "fst (readline f) \<noteq> []"
      using True rl by (simp add: line_at_eq_Nil)
    have "index_loop c ?f' (L + 1) ?locs' =
           (?f'\<lparr>pos := length s\<rparr>, (L + 1) + int (?N - Suc i),
            (\<lambda>k. if L + 1 \<le> k \<and> k < (L + 1) + int (?N - Suc i) \<and> (k - 1) mod c = 0
                 then Some (offset_of ?ls (Suc (Suc i + nat (k - (L + 1))))) else ?locs' k))"
      using ne True rl 1(2) by (intro 1(1)) (simp_all add: tell_def)
    then have ih: "index_loop c ?f' (L + 1) ?locs' =
           (?f'\<lparr>pos := length s\<rparr>, (L + 1) + int (?N - Suc i), F1)"
      by (simp only: F1_def)
    have step: "index_loop c f L locs = index_loop c ?f' (L + 1) ?locs'"
      using ne rl by (subst index_loop.simps) (simp add: tell_def Let_def)
    have cnt: "(L + 1) + int (?N - Suc i) = L + int (?N - i)"
      using True by simp
    have fn: "F1 = F2"
    proof (rule ext)
      fix k :: int
      consider "k < L" | "k = L" | "L < k" by linarith
      then show "F1 k = F2 k"
      proof cases
        case 1
        then show ?thesis by (simp add: F1_def F2_def)
      next
        case 2
        then show ?thesis using True by (simp add: F1_def F2_def)
      next
        case 3
        then obtain m where k: "k = L + 1 + int m"
          by (metis add.assoc zle_iff_zadd zless_imp_add1_zle add.commute)
        have "nat (k - (L + 1)) = m" "nat (k - L) = Suc m"
          using k by simp_all
        moreover have "k < (L + 1) + int (?N - Suc i) \<longleftrightarrow> k < L + int (?N - i)"
          using cnt by simp
        ultimately show ?thesis
          using 3 by (simp add: F1_def F2_def)
      qed
    qed
    have fin: "?f'\<lparr>pos := length s\<rparr> = f\<lparr>pos := length s\<rparr>"
      by simp
    have "index_loop c f L locs = (f\<lparr>pos := length s\<rparr>, L + int (?N - i), F2)"
      by (simp only: step ih fn cnt fin)
    then show ?thesis
      by (simp only: F2_def)
  qed
qed

lemma init_open_file:
  "init (open_file s) =
     \<lparr>chunk_size = CHUNK_SIZE,
      lines_locations = index_of CHUNK_SIZE (lines_of s),
      file_obj = \<lparr>content = s, pos = offset_of (lines_of s) 1\<rparr>,
      header = line_at (lines_of s) 0,
      iter_line = 1,
      file_length = int (length (lines_of s)) - 1\<rparr>"
proof -
  let ?ls = "lines_of s"
  have scan: "index_loop CHUNK_SIZE (open_file s) 1 Map.empty =
       ((open_file s)\<lparr>pos := length s\<rparr>, 1 + int (length ?ls - 0),
        (\<lambda>k. if 1 \<le> k \<and> k < 1 + int (length ?ls - 0) \<and> (k - 1) mod CHUNK_SIZE = 0
             then Some (offset_of ?ls (Suc (0 + nat (k - 1)))) else Map.empty k))"
    by (rule index_loop_at) (simp_all add: open_file_def)
  have idx: "(\<lambda>k. if 1 \<le> k \<and> k < 1 + int (length ?ls - 0) \<and> (k - 1) mod CHUNK_SIZE = 0
             then Some (offset_of ?ls (Suc (0 + nat (k - 1)))) else Map.empty k) =
        index_of CHUNK_SIZE ?ls"
  proof (rule ext)
    fix k :: int
    have "1 \<le> k \<Longrightarrow> Suc (nat (k - 1)) = nat k"
      by simp
    then show "(if 1 \<le> k \<and> k < 1 + int (length ?ls - 0) \<and> (k - 1) mod CHUNK_SIZE = 0
             then Some (offset_of ?ls (Suc (0 + nat (k - 1)))) else Map.empty k) =
        index_of CHUNK_SIZE ?ls k"
      by (auto simp: index_of_def)
  qed
  have hdr: "readline ((open_file s)\<lparr>pos := 0\<rparr>) =
       (line_at ?ls 0, (open_file s)\<lparr>pos := offset_of ?ls (Suc 0)\<rparr>)"
    using readline_at [of "(open_file s)\<lparr>pos := 0\<rparr>" s 0] by (simp add: open_file_def)
  have scan': "index_loop CHUNK_SIZE (open_file s) 1 Map.empty =
       ((open_file s)\<lparr>pos := length s\<rparr>, 1 + int (length ?ls - 0), index_of CHUNK_SIZE ?ls)"
    using scan by (simp only: idx)
  have "init (open_file s) =
     \<lparr>chunk_size = CHUNK_SIZE,
      lines_locations = index_of CHUNK_SIZE (lines_of s),
      file_obj = (open_file s)\<lparr>pos := offset_of ?ls (Suc 0)\<rparr>,
      header = line_at (lines_of s) 0,
      iter_line = 1,
      file_length = 1 + int (length ?ls - 0) - 2\<rparr>"
    by (simp add: init_def Let_def scan' seek_def hdr)
  then show ?thesis
    by (simp add: open_file_def)
qed

lemma built_from_init: "built_from s (init (open_file s))"
  by (simp add: init_open_file built_from_def)

section \<open>Lookup\<close>

lemma trunc_div_nonneg: "0 \<le> a \<Longrightarrow> 0 < b \<Longrightarrow> trunc_div a b = a div b"
  by (cases "a = 0") (simp_all add: trunc_div_def)

lemma start_of_chunk_line_nonneg:
  "0 \<le> n \<Longrightarrow> 0 < c \<Longrightarrow> start_of_chunk_line n c = (n div c) * c + 1"
  by (simp add: start_of_chunk_line_def trunc_div_nonneg)

lemma content_readline [simp]: "content (snd (readline f)) = content f"
  by (simp add: readline_def Let_def)

lemma content_seek [simp]: "content (seek f p) = content f"
  by (simp add: seek_def)

lemma content_skip_lines [simp]: "content (skip_lines f counter offset) = content f"
proof (induction f counter offset rule: skip_lines.induct)
  case (1 f counter offset)
  then show ?case
    by (subst skip_lines.simps) simp
qed

lemma get_line_keeps [simp]:
  "chunk_size (snd (get_line self n)) = chunk_size self"
  "lines_locations (snd (get_line self n)) = lines_locations self"
  "header (snd (get_line self n)) = header self"
  "content (file_obj (snd (get_line self n))) = content (file_obj self)"
proof -
  show "chunk_size (snd (get_line self n)) = chunk_size self"
    by (simp add: get_line_def Let_def split: option.splits prod.splits)
  show "lines_locations (snd (get_line self n)) = lines_locations self"
    by (simp add: get_line_def Let_def split: option.splits prod.splits)
  show "header (snd (get_line self n)) = header self"
    by (simp add: get_line_def Let_def split: option.splits prod.splits)
  have "content (snd (readline f)) = content f" for f
    by simp
  then have "readline f = (l, g) \<Longrightarrow> content g = content f" for f g l
    by (metis snd_conv)
  then show "content (file_obj (snd (get_line self n))) = content (file_obj self)"
    by (auto simp: get_line_def Let_def split: option.splits prod.splits)
qed

lemma built_from_get_line: "built_from s self \<Longrightarrow> built_from s (snd (get_line self n))"
  by (simp add: built_from_def)

text \<open>
  Which line a lookup reads, on an instance built from \<open>s\<close> and for \<open>n \<ge> 0\<close>: line \<open>n\<close>
  of the text (the header being line 0) unless \<open>n\<close> is a multiple of the chunk size,
  and line \<open>n + 1\<close> when it is.
\<close>

lemma get_line_built_from:
  assumes b: "built_from s self" and n: "0 \<le> n"
  shows "fst (get_line self n) =
           (if start_of_chunk_line n CHUNK_SIZE \<le> int (length (lines_of s))
            then Inr (get_dictionary (line_at (lines_of s) 0)
                   (line_at (lines_of s) (nat (if n mod CHUNK_SIZE = 0 then n + 1 else n))))
            else Inl KeyError)"
proof -
  let ?ls = "lines_of s"
  let ?c = "CHUNK_SIZE"
  let ?st = "start_of_chunk_line n ?c"
  have c: "0 < ?c"
    by (simp add: CHUNK_SIZE_def)
  have st: "?st = (n div ?c) * ?c + 1"
    using n c by (rule start_of_chunk_line_nonneg)
  have st1: "1 \<le> ?st"
    using n c by (simp add: st pos_imp_zdiv_nonneg_iff)
  have stm: "(?st - 1) mod ?c = 0"
    by (simp add: st)
  have cs: "chunk_size self = ?c" and ll: "lines_locations self = index_of ?c ?ls"
    and ct: "content (file_obj self) = s" and hd: "header self = line_at ?ls 0"
    using b by (simp_all add: built_from_def)
  show ?thesis
  proof (cases "?st \<le> int (length ?ls)")
    case False
    then have "lines_locations self ?st = None"
      by (simp add: ll index_of_def)
    then show ?thesis
      using False c by (simp add: get_line_def cs)
  next
    case True
    have loc: "lines_locations self ?st = Some (offset_of ?ls (nat ?st))"
      using True st1 stm by (simp add: ll index_of_def)
    let ?f1 = "seek (file_obj self) (offset_of ?ls (nat ?st))"
    let ?j = "nat ?st + nat (n mod ?c - 1)"
    have f1: "content ?f1 = s" "pos ?f1 = offset_of ?ls (nat ?st)"
      using ct by (simp_all add: seek_def)
    have sk: "skip_lines ?f1 1 (n mod ?c) = ?f1\<lparr>pos := offset_of ?ls ?j\<rparr>"
      using f1 by (rule skip_lines_at)
    have rd: "fst (readline (?f1\<lparr>pos := offset_of ?ls ?j\<rparr>)) = line_at ?ls ?j"
      using readline_at [of "?f1\<lparr>pos := offset_of ?ls ?j\<rparr>" s ?j] f1 by simp
    have j: "?j = nat (if n mod ?c = 0 then n + 1 else n)"
    proof (cases "n mod ?c = 0")
      case True
      then have "(n div ?c) * ?c = n"
        by (metis add.right_neutral div_mult_mod_eq)
      then show ?thesis
        using True st by simp
    next
      case False
      then have "1 \<le> n mod ?c"
        using c by (smt (verit) pos_mod_sign)
      moreover have "(n div ?c) * ?c + n mod ?c = n"
        by (rule div_mult_mod_eq)
      ultimately show ?thesis
        using False st n st1 by (simp add: nat_add_distrib [symmetric])
    qed
    have "fst (get_line self n) =
            Inr (get_dictionary (header self) (fst (readline (skip_lines ?f1 1 (n mod ?c)))))"
      using c loc by (simp add: get_line_def cs Let_def split: prod.splits)
    moreover have "fst (readline (skip_lines ?f1 1 (n mod ?c))) =
            line_at ?ls (nat (if n mod ?c = 0 then n + 1 else n))"
      using rd unfolding sk j .
    ultimately have "fst (get_line self n) =
            Inr (get_dictionary (line_at ?ls 0)
              (line_at ?ls (nat (if n mod ?c = 0 then n + 1 else n))))"
      by (simp only: hd)
    then show ?thesis
      using True by (simp only: if_True)
  qed
qed

section \<open>Counting lines\<close>

lemma lines_of_Cons:
  "lines_of (c # cs) =
     (if c = CHR 0x0A then [c] # lines_of cs
      else (case lines_of cs of [] \<Rightarrow> [[c]] | l # ls \<Rightarrow> (c # l) # ls))"
proof (cases "c = CHR 0x0A")
  case True
  then show ?thesis
    using lines_of_nonempty [of "c # cs"] by simp
next
  case False
  show ?thesis
  proof (cases "cs = []")
    case True
    then show ?thesis
      using False lines_of_nonempty [of "[c]"] by simp
  next
    case ne: False
    have "lines_of cs = take_line cs # lines_of (drop (length (take_line cs)) cs)"
      using ne by (rule lines_of_nonempty)
    then show ?thesis
      using False lines_of_nonempty [of "c # cs"] by simp
  qed
qed

text \<open>
  The number of lines is the number of line feeds, plus one for a last line that does
  not end in a line feed.
\<close>

lemma length_lines_of:
  "length (lines_of s) =
     count_list s (CHR 0x0A) + (if s = [] \<or> last s = CHR 0x0A then 0 else 1)"
proof (induction s)
  case Nil
  show ?case by simp
next
  case (Cons c cs)
  show ?case
  proof (cases "cs = []")
    case True
    then show ?thesis
      by (simp add: lines_of_Cons)
  next
    case False
    then obtain l ls where "lines_of cs = l # ls"
      by (cases "lines_of cs") simp_all
    then show ?thesis
      using Cons False by (simp add: lines_of_Cons)
  qed
qed

lemma lines_of_x_records: "lines_of (concat (replicate n ''x\<newline>'')) = replicate n ''x\<newline>''"
  by (induction n) (simp_all add: lines_of_Cons)

lemma lines_of_thousand_records:
  "lines_of thousand_records = ''h\<newline>'' # replicate 1000 ''x\<newline>''"
  using lines_of_x_records [of 1000]
  by (simp add: thousand_records_def lines_of_Cons)

section \<open>The record count\<close>

text \<open>
  Claim C5, as the code has it: after construction, \<^verbatim>\<open>length\<close> (returned by
  \<^verbatim>\<open>get_file_length\<close>) is the number of lines of the stream minus one, for every
  stream; it is non-negative exactly when the stream is not empty. (The empty stream
  has no line, and its count is \<open>- 1\<close>.)
\<close>

theorem get_file_length_lines:
  "get_file_length (init (open_file s)) = int (length (lines_of s)) - 1 \<and>
   (0 \<le> get_file_length (init (open_file s)) \<longleftrightarrow> s \<noteq> [])"
proof -
  have "length (lines_of s) = 0 \<longleftrightarrow> s = []"
    by simp
  then have "1 \<le> int (length (lines_of s)) \<longleftrightarrow> s \<noteq> []"
    by linarith
  then show ?thesis
    by (simp add: get_file_length_def init_open_file)
qed

text \<open>
  Claim C5 as stated fails on the empty stream: the count is \<open>- 1\<close>, neither \<open>0\<close> nor
  non-negative.
\<close>

theorem get_file_length_empty_stream:
  "get_file_length (init (open_file [])) = - 1"
  by (simp add: get_file_length_def init_open_file)

section \<open>The keys of the index\<close>

text \<open>
  Claim C4, as the code has it: after construction from a stream, the keys of
  \<^verbatim>\<open>lines_locations\<close> are exactly the numbers \<open>k\<close> with \<open>k - 1\<close> a multiple of the chunk
  size from 1 up to the number of lines of the stream, that is up to
  \<^verbatim>\<open>length\<close> \<open>+ 1\<close>; and when the stream is not empty, key 1 holds the position right
  after the header line.
\<close>

theorem lines_locations_keys:
  "dom (lines_locations (init (open_file s))) =
     {k. 1 \<le> k \<and> k \<le> get_file_length (init (open_file s)) + 1 \<and> (k - 1) mod CHUNK_SIZE = 0} \<and>
   (s \<noteq> [] \<longrightarrow>
      lines_locations (init (open_file s)) 1 = Some (length (get_header (init (open_file s)))))"
proof -
  have "offset_of (lines_of s) (Suc 0) = length (line_at (lines_of s) 0)"
    by (simp add: offset_of_Suc)
  moreover have "s \<noteq> [] \<Longrightarrow> 1 \<le> int (length (lines_of s))"
    by (cases "lines_of s") simp_all
  ultimately show ?thesis
    by (auto simp: init_open_file get_file_length_def get_header_def index_of_def dom_def)
qed

theorem lines_locations_keys_witness:
  "''h\<newline>x\<newline>'' \<noteq> [] \<and>
   lines_locations (init (open_file ''h\<newline>x\<newline>'')) 1 = Some 2"
proof -
  have "get_header (init (open_file ''h\<newline>x\<newline>'')) = ''h\<newline>''"
    by (simp add: get_header_def init_open_file lines_of_Cons line_at_def)
  then show ?thesis
    using lines_locations_keys [of "''h\<newline>x\<newline>''"] by simp
qed

text \<open>
  Claim C4 as stated fails on a stream with a header and 1000 records: the index has
  the key 1001, above the record count 1000.
\<close>

theorem lines_locations_key_above_count:
  "get_file_length (init (open_file thousand_records)) = 1000 \<and>
   lines_locations (init (open_file thousand_records)) 1001 = Some 2002"
proof -
  have "length (concat (replicate n ''x\<newline>'')) = 2 * n" for n
    by (induction n) simp_all
  then have "offset_of (lines_of thousand_records) 1001 = 2002"
    by (simp add: offset_of_end lines_of_thousand_records)
  then show ?thesis
    by (simp add: get_file_length_def init_open_file index_of_def CHUNK_SIZE_def
        lines_of_thousand_records)
qed

section \<open>Lookup against the linear scan\<close>

lemma linear_scan_record_line:
  "linear_scan_record s n =
     get_dictionary (line_at (lines_of s) 0) (line_at (lines_of s) (Suc (nat (n - 1))))"
proof -
  let ?ls = "lines_of s"
  let ?f = "(open_file s)\<lparr>pos := offset_of ?ls (Suc 0)\<rparr>"
  have hdr: "readline (open_file s) = (line_at ?ls 0, ?f)"
    using readline_at [of "open_file s" s 0] by (simp add: open_file_def)
  have f: "content ?f = s" "pos ?f = offset_of ?ls (Suc 0)"
    by (simp_all add: open_file_def)
  have sk: "skip_lines ?f 1 n = ?f\<lparr>pos := offset_of ?ls (Suc 0 + nat (n - 1))\<rparr>"
    using f by (rule skip_lines_at)
  have "fst (readline (?f\<lparr>pos := offset_of ?ls (Suc 0 + nat (n - 1))\<rparr>)) =
          line_at ?ls (Suc 0 + nat (n - 1))"
    using readline_at [of "?f\<lparr>pos := offset_of ?ls (Suc 0 + nat (n - 1))\<rparr>" s "Suc 0 + nat (n - 1)"]
    by (simp add: open_file_def)
  then have "fst (get_line_iterating ?f n) = line_at ?ls (Suc (nat (n - 1)))"
    unfolding get_line_iterating_def sk by simp
  then show ?thesis
    by (simp add: linear_scan_record_def hdr)
qed

lemma start_of_chunk_line_le:
  assumes "0 \<le> n" and "0 < c"
  shows "start_of_chunk_line n c \<le> n + 1"
proof -
  have "(n div c) * c \<le> n"
    using assms by (metis div_mult_mod_eq le_add_same_cancel1 pos_mod_sign)
  then show ?thesis
    using assms by (simp add: start_of_chunk_line_nonneg)
qed

lemma get_line_in_range:
  assumes "built_from s self" and "0 \<le> n" and "n < int (length (lines_of s))"
  shows "fst (get_line self n) =
           Inr (get_dictionary (line_at (lines_of s) 0)
             (line_at (lines_of s) (nat (if n mod CHUNK_SIZE = 0 then n + 1 else n))))"
proof -
  have "start_of_chunk_line n CHUNK_SIZE \<le> n + 1"
    using assms(2) by (rule start_of_chunk_line_le) (simp add: CHUNK_SIZE_def)
  then have "start_of_chunk_line n CHUNK_SIZE \<le> int (length (lines_of s))"
    using assms(3) by linarith
  then show ?thesis
    using get_line_built_from [OF assms(1,2)] by (simp only: if_True)
qed

text \<open>
  Away from the multiples of the chunk size the lookup agrees with the linear scan.
\<close>

lemma get_line_matches_linear_scan:
  assumes "1 \<le> n" and "n \<le> get_file_length (init (open_file s))"
    and "n mod CHUNK_SIZE \<noteq> 0"
  shows "fst (get_line (init (open_file s)) n) = Inr (linear_scan_record s n)"
proof -
  have "n < int (length (lines_of s))"
    using assms(2) by (simp add: get_file_length_def init_open_file)
  moreover have "0 \<le> n"
    using assms(1) by simp
  ultimately have "fst (get_line (init (open_file s)) n) =
      Inr (get_dictionary (line_at (lines_of s) 0)
             (line_at (lines_of s) (nat (if n mod CHUNK_SIZE = 0 then n + 1 else n))))"
    using built_from_init by (intro get_line_in_range)
  moreover have "Suc (nat (n - 1)) = nat n"
    using assms(1) by simp
  ultimately show ?thesis
    using assms(3) by (simp add: linear_scan_record_line)
qed

lemma get_dictionary_h_x: "get_dictionary ''h\<newline>'' ''x\<newline>'' = [(''h'', ''x'')]"
  by (simp add: get_dictionary_def SEPARATOR_def str_strip_def isspace_def dict_of_def)

lemma get_dictionary_h_empty: "get_dictionary ''h\<newline>'' [] = [(''h'', [])]"
  by (simp add: get_dictionary_def SEPARATOR_def str_strip_def isspace_def dict_of_def)

text \<open>
  Claim C1 at a stream with a header and 1000 records, for record 1000 (in range): the
  lookup returns the parse of the empty line read at the end of the stream, the linear
  scan returns record 1000.
\<close>

theorem get_line_differs_from_linear_scan:
  "get_file_length (init (open_file thousand_records)) = 1000 \<and>
   fst (get_line (init (open_file thousand_records)) 1000) = Inr [(''h'', [])] \<and>
   linear_scan_record thousand_records 1000 = [(''h'', ''x'')]"
proof -
  let ?ls = "lines_of thousand_records"
  have len: "get_file_length (init (open_file thousand_records)) = 1000"
    by (simp add: get_file_length_def init_open_file lines_of_thousand_records)
  have l0: "line_at ?ls 0 = ''h\<newline>''"
    by (simp add: line_at_def lines_of_thousand_records)
  have l1000: "line_at ?ls (nat 1000) = ''x\<newline>''"
    by (simp add: line_at_def lines_of_thousand_records)
  have l1001: "line_at ?ls (nat 1001) = []"
    by (simp add: line_at_def lines_of_thousand_records)
  have "fst (get_line (init (open_file thousand_records)) 1000) =
      Inr (get_dictionary (line_at ?ls 0)
             (line_at ?ls (nat (if 1000 mod CHUNK_SIZE = 0 then 1000 + 1 else 1000))))"
    using built_from_init
    by (rule get_line_in_range) (simp_all add: lines_of_thousand_records)
  then have a: "fst (get_line (init (open_file thousand_records)) 1000) = Inr [(''h'', [])]"
    using l1001 by (simp add: CHUNK_SIZE_def l0 get_dictionary_h_empty)
  have "Suc (nat (1000 - 1)) = nat 1000"
    by simp
  then have b: "linear_scan_record thousand_records 1000 = [(''h'', ''x'')]"
    using l1000 by (simp only: linear_scan_record_line l0 get_dictionary_h_x)
  show ?thesis
    using len a b by simp
qed

section \<open>The chunk start\<close>

text \<open>
  For \<open>n \<ge> 1\<close> that is not a multiple of the chunk size, the chunk start of the code is
  the one of the specification, and the lines skipped are \<open>n - chunk_start\<close>.
\<close>

lemma start_of_chunk_line_off_boundary:
  assumes "1 \<le> n" and "0 < c" and "n mod c \<noteq> 0"
  shows "start_of_chunk_line n c = spec_chunk_start n c"
    and "n mod c - 1 = n - spec_chunk_start n c"
proof -
  have r: "1 \<le> n mod c" "n mod c < c"
    using assms by (smt (verit) pos_mod_sign, simp)
  have "n - 1 = c * (n div c) + (n mod c - 1)"
    by (simp add: algebra_simps)
  then have q: "(n - 1) div c = n div c"
    using r by (intro int_div_pos_eq [where r = "n mod c - 1"]) simp_all
  show "start_of_chunk_line n c = spec_chunk_start n c"
    using assms by (simp add: start_of_chunk_line_nonneg spec_chunk_start_def q)
  have "(n div c) * c + n mod c = n"
    by (rule div_mult_mod_eq)
  then have "n mod c - 1 = n - ((n div c) * c + 1)"
    by linarith
  then show "n mod c - 1 = n - spec_chunk_start n c"
    by (simp only: spec_chunk_start_def q)
qed

text \<open>
  Claim C2 at a stream with a header and 1000 records, for record 1000 (in range): the
  code takes 1001 as chunk start where the specification computes 1, seeks to the end
  of the stream (position 2002) instead of the position after the header (2), and
  skips no line.
\<close>

theorem get_line_seeks_past_chunk:
  "get_file_length (init (open_file thousand_records)) = 1000 \<and>
   start_of_chunk_line 1000 (chunk_size (init (open_file thousand_records))) = 1001 \<and>
   spec_chunk_start 1000 (chunk_size (init (open_file thousand_records))) = 1 \<and>
   lines_locations (init (open_file thousand_records)) 1001 = Some 2002 \<and>
   lines_locations (init (open_file thousand_records)) 1 = Some 2 \<and>
   skip_lines (seek (file_obj (init (open_file thousand_records))) 2002) 1
       (1000 mod chunk_size (init (open_file thousand_records))) =
     seek (file_obj (init (open_file thousand_records))) 2002"
proof -
  have len: "length (concat (replicate n ''x\<newline>'')) = 2 * n" for n
    by (induction n) simp_all
  have o1: "offset_of (lines_of thousand_records) (nat 1) = 2"
    by (simp add: offset_of_Suc line_at_def lines_of_thousand_records)
  have o2: "offset_of (lines_of thousand_records) (nat 1001) = 2002"
    using len by (simp add: offset_of_end lines_of_thousand_records)
  have "start_of_chunk_line 1000 CHUNK_SIZE = 1001"
    by (simp add: start_of_chunk_line_def trunc_div_def CHUNK_SIZE_def)
  moreover have "spec_chunk_start 1000 CHUNK_SIZE = 1"
    by (simp add: spec_chunk_start_def CHUNK_SIZE_def)
  moreover have "skip_lines f 1 (1000 mod CHUNK_SIZE) = f" for f
    by (subst skip_lines.simps) (simp add: CHUNK_SIZE_def)
  moreover have "index_of CHUNK_SIZE (lines_of thousand_records) 1001 = Some 2002"
    using o2 by (simp add: index_of_def CHUNK_SIZE_def lines_of_thousand_records)
  moreover have "index_of CHUNK_SIZE (lines_of thousand_records) 1 = Some 2"
    using o1 by (simp add: index_of_def CHUNK_SIZE_def lines_of_thousand_records)
  ultimately show ?thesis
    by (simp add: get_file_length_def init_open_file lines_of_thousand_records)
qed

section \<open>Lookup outside the range\<close>


lemma lines_of_length_pos: "1 \<le> int (length (lines_of s)) \<longleftrightarrow> s \<noteq> []"
proof -
  have "length (lines_of s) = 0 \<longleftrightarrow> s = []"
    by simp
  then show ?thesis
    by linarith
qed

lemma get_line_zero:
  assumes "built_from s self"
  shows "fst (get_line self 0) =
           (if s \<noteq> [] then Inr (get_dictionary (line_at (lines_of s) 0) (line_at (lines_of s) 1))
            else Inl KeyError)"
proof -
  have "start_of_chunk_line 0 CHUNK_SIZE = 1"
    by (simp add: start_of_chunk_line_def trunc_div_def)
  moreover have "1 \<le> int (length (lines_of s)) \<longleftrightarrow> s \<noteq> []"
    by (rule lines_of_length_pos)
  ultimately show ?thesis
    using get_line_built_from [OF assms, of 0] by simp
qed



lemma lines_of_h_x: "lines_of ''h\<newline>x\<newline>'' = [''h\<newline>'', ''x\<newline>'']"
  by (simp add: lines_of_Cons)




section \<open>Independence of the read position and of the history\<close>

lemma get_line_depends_on:
  assumes "chunk_size a = chunk_size b" and "lines_locations a = lines_locations b"
    and "content (file_obj a) = content (file_obj b)" and "header a = header b"
  shows "fst (get_line a n) = fst (get_line b n)"
proof -
  have "seek (file_obj a) p = seek (file_obj b) p" for p
    using assms(3) by (simp add: seek_def)
  then show ?thesis
    using assms(1,2,4) by (simp add: get_line_def Let_def split: option.splits prod.splits)
qed

lemma csv_next_keeps [simp]:
  "chunk_size (snd (csv_next self)) = chunk_size self"
  "lines_locations (snd (csv_next self)) = lines_locations self"
  "header (snd (csv_next self)) = header self"
  "content (file_obj (snd (csv_next self))) = content (file_obj self)"
  "file_length (snd (csv_next self)) = file_length self"
  by (simp_all add: csv_next_def Let_def)

lemma do_call_keeps [simp]:
  "chunk_size (do_call self c) = chunk_size self"
  "lines_locations (do_call self c) = lines_locations self"
  "header (do_call self c) = header self"
  "content (file_obj (do_call self c)) = content (file_obj self)"
  by (cases c; simp add: get_iter_def)+

lemma do_calls_keeps:
  "chunk_size (do_calls self cs) = chunk_size self \<and>
   lines_locations (do_calls self cs) = lines_locations self \<and>
   header (do_calls self cs) = header self \<and>
   content (file_obj (do_calls self cs)) = content (file_obj self)"
  unfolding do_calls_def by (induction cs arbitrary: self) simp_all

text \<open>
  Claim C10: the value \<^verbatim>\<open>get_line(n)\<close> returns (a record or the \<^verbatim>\<open>KeyError\<close>) is the
  same after any sequence of lookups, iterator calls, and reads and seeks on the
  stream: it depends on neither the read position nor the history. This holds for
  every instance and every \<open>n\<close>, so for every \<open>n\<close> in the range too.
\<close>

theorem get_line_independent_of_history:
  "fst (get_line (do_calls self cs) n) = fst (get_line self n)"
  using do_calls_keeps [of self cs] by (intro get_line_depends_on) simp_all

section \<open>Iteration\<close>

lemma get_line_ignores_cursor:
  "fst (get_line (self\<lparr>iter_line := i\<rparr>) n) = fst (get_line self n)"
  by (rule get_line_depends_on) simp_all

lemma csv_next_get_iter:
  "fst (csv_next (get_iter self n)) =
     (if n \<le> file_length self then fst (get_line self n) else Inl StopIteration)"
  by (simp add: csv_next_def get_iter_def Let_def get_line_ignores_cursor)

lemma consume_exhausted:
  assumes "file_length self < iter_line self + 1"
  shows "consume self = ([], StopIteration)"
proof -
  have "fst (csv_next self) = Inl StopIteration"
    using assms by (simp add: csv_next_def Let_def)
  then show ?thesis
    by (subst consume.simps) simp
qed

lemma built_from_cursor [simp]: "built_from s (self\<lparr>iter_line := i\<rparr>) = built_from s self"
  by (simp add: built_from_def)






section \<open>The start of an iteration\<close>

text \<open>
  Claim C7, as the code has it: the iterator started above the record count, at
  record count plus one or anywhere beyond, is exhausted at once, with no error; started
  at any \<open>n\<close> up to the record count, also at \<open>n\<close> below 1, its first advance returns
  what \<^verbatim>\<open>get_line(n)\<close> returns. No start checks a range.
\<close>

theorem get_iter_first_advance:
  "(if n \<le> get_file_length self
    then fst (csv_next (get_iter self n)) = fst (get_line self n)
    else fst (csv_next (get_iter self n)) = Inl StopIteration \<and>
         consume (get_iter self n) = ([], StopIteration))"
proof (cases "n \<le> get_file_length self")
  case True
  then show ?thesis
    by (simp add: csv_next_get_iter get_file_length_def)
next
  case False
  then have "consume (get_iter self n) = ([], StopIteration)"
    by (intro consume_exhausted) (simp add: get_iter_def get_file_length_def)
  then show ?thesis
    using False by (simp add: csv_next_get_iter get_file_length_def)
qed

text \<open>
  Claim C7 as stated fails on the stream with the header \<^verbatim>\<open>h\<close> and the one record
  \<^verbatim>\<open>x\<close> (record count 1): started at 0, the first advance returns record 1; started at
  3, the iteration ends at once with no error.
\<close>

theorem get_iter_outside_range_no_error:
  "get_file_length (init (open_file ''h\<newline>x\<newline>'')) = 1 \<and>
   fst (csv_next (get_iter (init (open_file ''h\<newline>x\<newline>'')) 0)) = Inr [(''h'', ''x'')] \<and>
   consume (get_iter (init (open_file ''h\<newline>x\<newline>'')) 3) = ([], StopIteration)"
proof -
  let ?s = "''h\<newline>x\<newline>''"
  have k: "file_length (init (open_file ?s)) = 1"
    by (simp add: init_open_file lines_of_h_x)
  have "fst (get_line (init (open_file ?s)) 0) = Inr [(''h'', ''x'')]"
    using get_line_zero [OF built_from_init, of ?s]
    by (simp add: lines_of_h_x line_at_def get_dictionary_h_x)
  then have a: "fst (csv_next (get_iter (init (open_file ?s)) 0)) = Inr [(''h'', ''x'')]"
    by (simp add: csv_next_get_iter k)
  have b: "consume (get_iter (init (open_file ?s)) 3) = ([], StopIteration)"
    by (intro consume_exhausted) (simp add: get_iter_def k)
  show ?thesis
    using k a b by (simp add: get_file_length_def)
qed

section \<open>Iterators are the object\<close>

text \<open>
  Claim C9, as the code has it: \<^verbatim>\<open>get_iter\<close> returns the reference it was called on,
  with the cursor of that object set to the new start. An advance through any
  reference to that object, an iterator returned earlier included, continues from
  the new start; only the iterators of other objects are not affected.
\<close>

theorem get_iter_returns_self:
  "fst (obj_get_iter h r n) = r \<and>
   fst (obj_next (snd (obj_get_iter h r n)) it) =
     (if it = r then fst (csv_next (get_iter (h r) n)) else fst (csv_next (h it)))"
  by (simp add: obj_get_iter_def obj_next_def)

lemma csv_next_built_from:
  assumes "built_from s self" and "0 \<le> iter_line self + 1"
    and "iter_line self + 1 \<le> int (length (lines_of s)) - 1"
  shows "fst (csv_next self) =
           Inr (get_dictionary (line_at (lines_of s) 0)
             (line_at (lines_of s)
                (nat (if (iter_line self + 1) mod CHUNK_SIZE = 0 then iter_line self + 1 + 1
                      else iter_line self + 1))))"
    and "built_from s (snd (csv_next self))"
    and "iter_line (snd (csv_next self)) = iter_line self + 1"
proof -
  let ?self1 = "self\<lparr>iter_line := iter_line self + 1\<rparr>"
  have k: "file_length self = int (length (lines_of s)) - 1"
    using assms(1) by (simp add: built_from_def)
  have nx: "csv_next self = get_line ?self1 (iter_line self + 1)"
    using assms(3) k by (simp add: csv_next_def Let_def)
  have b1: "built_from s ?self1"
    using assms(1) by simp
  show "fst (csv_next self) =
           Inr (get_dictionary (line_at (lines_of s) 0)
             (line_at (lines_of s)
                (nat (if (iter_line self + 1) mod CHUNK_SIZE = 0 then iter_line self + 1 + 1
                      else iter_line self + 1))))"
    unfolding nx using b1 assms(2,3) by (intro get_line_in_range) simp_all
  show "built_from s (snd (csv_next self))"
    unfolding nx using b1 by (rule built_from_get_line)
  show "iter_line (snd (csv_next self)) = iter_line self + 1"
    unfolding nx by simp
qed

lemma lines_of_four_records:
  "lines_of four_records = [''h\<newline>'', ''1\<newline>'', ''2\<newline>'', ''3\<newline>'', ''4\<newline>'']"
  by (simp add: four_records_def lines_of_Cons)

lemma get_dictionary_h_digit:
  "get_dictionary ''h\<newline>'' ''1\<newline>'' = [(''h'', ''1'')]"
  "get_dictionary ''h\<newline>'' ''2\<newline>'' = [(''h'', ''2'')]"
  "get_dictionary ''h\<newline>'' ''3\<newline>'' = [(''h'', ''3'')]"
  "get_dictionary ''h\<newline>'' ''4\<newline>'' = [(''h'', ''4'')]"
  by (simp_all add: get_dictionary_def SEPARATOR_def str_strip_def isspace_def dict_of_def)

text \<open>
  Claim C9 as stated fails in the scenario: the two iterators are the same reference;
  after the advance of \<^verbatim>\<open>it2\<close> (record 3), the next advance of \<^verbatim>\<open>it1\<close> returns record
  4, where before the second \<^verbatim>\<open>get_iter\<close> it would have returned record 2.
\<close>

theorem second_get_iter_moves_first_iterator:
  "it1 = it2 \<and>
   fst (obj_next store1 it1) = Inr [(''h'', ''1'')] \<and>
   fst (obj_next store2 it1) = Inr [(''h'', ''2'')] \<and>
   fst (obj_next store3 it2) = Inr [(''h'', ''3'')] \<and>
   fst (obj_next store4 it1) = Inr [(''h'', ''4'')]"
proof -
  let ?s = "four_records"
  have len: "int (length (lines_of ?s)) - 1 = 4"
    by (simp add: lines_of_four_records)
  have i1: "it1 = 0" and i2: "it2 = 0"
    by (simp_all add: it1_def it2_def obj_get_iter_def)
  have s1: "store1 0 = get_iter (init (open_file ?s)) 1"
    by (simp add: store1_def store0_def obj_get_iter_def)
  have b1: "built_from ?s (store1 0)" and c1: "iter_line (store1 0) = 0"
    using built_from_init [of ?s] by (simp_all add: s1 get_iter_def)
  have r1: "fst (csv_next (store1 0)) = Inr [(''h'', ''1'')]"
    using csv_next_built_from(1) [OF b1] c1 len
    by (simp add: lines_of_four_records line_at_def CHUNK_SIZE_def get_dictionary_h_digit)
  have s2: "store2 0 = snd (csv_next (store1 0))"
    by (simp add: store2_def obj_next_def i1)
  have b2: "built_from ?s (store2 0)" and c2: "iter_line (store2 0) = 1"
    using csv_next_built_from(2,3) [OF b1] c1 len by (simp_all add: s2)
  have r2: "fst (csv_next (store2 0)) = Inr [(''h'', ''2'')]"
    using csv_next_built_from(1) [OF b2] c2 len
    by (simp add: lines_of_four_records line_at_def CHUNK_SIZE_def get_dictionary_h_digit)
  have s3: "store3 0 = get_iter (store2 0) 3"
    by (simp add: store3_def obj_get_iter_def)
  have b3: "built_from ?s (store3 0)" and c3: "iter_line (store3 0) = 2"
    using b2 by (simp_all add: s3 get_iter_def)
  have r3: "fst (csv_next (store3 0)) = Inr [(''h'', ''3'')]"
    using csv_next_built_from(1) [OF b3] c3 len
    by (simp add: lines_of_four_records line_at_def CHUNK_SIZE_def get_dictionary_h_digit)
  have s4: "store4 0 = snd (csv_next (store3 0))"
    by (simp add: store4_def obj_next_def i2)
  have b4: "built_from ?s (store4 0)" and c4: "iter_line (store4 0) = 3"
    using csv_next_built_from(2,3) [OF b3] c3 len by (simp_all add: s4)
  have r4: "fst (csv_next (store4 0)) = Inr [(''h'', ''4'')]"
    using csv_next_built_from(1) [OF b4] c4 len
    by (simp add: lines_of_four_records line_at_def CHUNK_SIZE_def get_dictionary_h_digit)
  show ?thesis
    using r1 r2 r3 r4 by (simp add: i1 i2 obj_next_def)
qed

section \<open>Parsing\<close>

text \<open>
  \<open>str_split\<close> cuts at every separator and nowhere else: joining the fields with the
  separator gives the text back, and no field contains the separator. \<open>str_strip\<close>
  removes white space at both ends and only there.
\<close>

lemma str_split_not_Nil [simp]: "str_split sep s \<noteq> []"
  by (induction s) (auto split: list.splits)

lemma str_split_join: "str_join sep (str_split sep s) = s"
proof (induction s)
  case Nil
  show ?case by simp
next
  case (Cons c cs)
  obtain w ws where sp: "str_split sep cs = w # ws"
    by (cases "str_split sep cs") simp_all
  show ?case
    using Cons sp by (cases ws) auto
qed

lemma str_split_no_sep: "w \<in> set (str_split sep s) \<Longrightarrow> sep \<notin> set w"
proof (induction s arbitrary: w)
  case Nil
  then show ?case by simp
next
  case (Cons c cs)
  obtain v vs where sp: "str_split sep cs = v # vs"
    by (cases "str_split sep cs") simp_all
  show ?case
    using Cons sp by (auto split: if_splits)
qed

lemma length_str_split: "length (str_split sep s) = Suc (count_list s sep)"
proof (induction s)
  case Nil
  show ?case by simp
next
  case (Cons c cs)
  obtain v vs where sp: "str_split sep cs = v # vs"
    by (cases "str_split sep cs") simp_all
  show ?case
    using Cons sp by auto
qed

lemma str_strip_decomp:
  "\<exists>a b. s = a @ str_strip s @ b \<and> (\<forall>c \<in> set a. isspace c) \<and> (\<forall>c \<in> set b. isspace c)"
proof -
  let ?t = "dropWhile isspace s"
  let ?a = "takeWhile isspace s"
  let ?b = "rev (takeWhile isspace (rev ?t))"
  have "rev ?t = takeWhile isspace (rev ?t) @ dropWhile isspace (rev ?t)"
    by simp
  then have "?t = str_strip s @ ?b"
    unfolding str_strip_def by (metis rev_append rev_rev_ident)
  then have "s = ?a @ str_strip s @ ?b"
    by (metis takeWhile_dropWhile_id)
  moreover have "\<forall>c \<in> set ?a. isspace c"
    by (auto dest: set_takeWhileD)
  moreover have "\<forall>c \<in> set ?b. isspace c"
    by (auto dest: set_takeWhileD)
  ultimately show ?thesis
    by blast
qed

lemma str_strip_ends:
  assumes "str_strip s \<noteq> []"
  shows "\<not> isspace (hd (str_strip s))" and "\<not> isspace (last (str_strip s))"
proof -
  let ?t = "dropWhile isspace s"
  let ?u = "dropWhile isspace (rev ?t)"
  have u: "?u \<noteq> []"
    using assms by (simp add: str_strip_def)
  have t: "?t \<noteq> []"
  proof
    assume "?t = []"
    then have "?u = []"
      by (simp only: rev.simps dropWhile.simps)
    with u show False ..
  qed
  have "last (str_strip s) = hd ?u"
    using u by (simp add: str_strip_def last_rev)
  then show "\<not> isspace (last (str_strip s))"
    using u hd_dropWhile by metis
  have "hd (str_strip s) = last ?u"
    using u by (simp add: str_strip_def hd_rev)
  also have "\<dots> = last (rev ?t)"
    using u by (metis append_is_Nil_conv last_appendR takeWhile_dropWhile_id)
  also have "\<dots> = hd ?t"
    using t by (simp add: last_rev)
  finally show "\<not> isspace (hd (str_strip s))"
    using t hd_dropWhile by metis
qed

lemma update_fresh: "k \<notin> fst ` set d \<Longrightarrow> AList.update k v d = d @ [(k, v)]"
  by (induction d) auto

lemma fold_update_distinct:
  "distinct (map fst (d @ ps)) \<Longrightarrow> fold (\<lambda>(k, v) d. AList.update k v d) ps d = d @ ps"
proof (induction ps arbitrary: d)
  case Nil
  show ?case by simp
next
  case (Cons p ps)
  obtain k v where p: "p = (k, v)" by (cases p)
  have "k \<notin> fst ` set d"
    using Cons.prems p by auto
  then have "AList.update k v d = d @ [(k, v)]"
    by (rule update_fresh)
  moreover have "distinct (map fst ((d @ [(k, v)]) @ ps))"
    using Cons.prems p by simp
  ultimately show ?case
    using Cons.IH [of "d @ [(k, v)]"] p by simp
qed

lemma dict_of_distinct: "distinct (map fst ps) \<Longrightarrow> dict_of ps = ps"
  using fold_update_distinct [of "[]" ps] by (simp add: dict_of_def)

lemma map_of_fold_update:
  "map_of (fold (\<lambda>(k, v) d. AList.update k v d) ps d) = map_of d ++ map_of (rev ps)"
proof (induction ps arbitrary: d)
  case Nil
  show ?case by simp
next
  case (Cons p ps)
  obtain k v where p: "p = (k, v)" by (cases p)
  have "map_of (AList.update k v d) ++ map_of (rev ps) = map_of d ++ map_of (rev ps @ [(k, v)])"
    by (simp add: update_conv' map_add_upd_left fun_eq_iff map_add_def split: option.splits)
  then show ?case
    using Cons.IH [of "AList.update k v d"] p by simp
qed

lemma map_of_dict_of: "map_of (dict_of ps) = map_of (rev ps)"
  by (simp add: dict_of_def map_of_fold_update)

lemma keys_fold_update:
  "fst ` set (fold (\<lambda>(k, v) d. AList.update k v d) ps d) = fst ` set d \<union> fst ` set ps"
proof (induction ps arbitrary: d)
  case Nil
  show ?case by simp
next
  case (Cons p ps)
  obtain k v where p: "p = (k, v)" by (cases p)
  have "fst ` set (AList.update k v d) = {k} \<union> fst ` set d"
    by (rule dom_update)
  then show ?case
    using Cons [of "AList.update k v d"] p by auto
qed

lemma distinct_fold_update:
  "distinct (map fst d) \<Longrightarrow> distinct (map fst (fold (\<lambda>(k, v) d. AList.update k v d) ps d))"
  by (induction ps arbitrary: d) (auto simp: distinct_update)

lemma map_of_rev_last:
  assumes "i < length ps" and "\<forall>j. i < j \<and> j < length ps \<longrightarrow> fst (ps ! j) \<noteq> fst (ps ! i)"
  shows "map_of (rev ps) (fst (ps ! i)) = Some (snd (ps ! i))"
  using assms
proof (induction ps rule: rev_induct)
  case Nil
  then show ?case by simp
next
  case (snoc q qs)
  show ?case
  proof (cases "i < length qs")
    case False
    then have "i = length qs"
      using snoc.prems(1) by simp
    then show ?thesis
      by (cases q) simp
  next
    case True
    have "fst ((qs @ [q]) ! length qs) \<noteq> fst ((qs @ [q]) ! i)"
      using snoc.prems(2) [rule_format, of "length qs"] True by simp
    then have ne: "fst q \<noteq> fst (qs ! i)"
      using True by (simp add: nth_append)
    have "\<forall>j. i < j \<and> j < length qs \<longrightarrow> fst (qs ! j) \<noteq> fst (qs ! i)"
    proof (intro allI impI)
      fix j assume j: "i < j \<and> j < length qs"
      then have "fst ((qs @ [q]) ! j) \<noteq> fst ((qs @ [q]) ! i)"
        using snoc.prems(2) by simp
      then show "fst (qs ! j) \<noteq> fst (qs ! i)"
        using j by (simp add: nth_append)
    qed
    then have "map_of (rev qs) (fst (qs ! i)) = Some (snd (qs ! i))"
      using True by (intro snoc.IH) simp_all
    then show ?thesis
      using True ne by (cases q) (auto simp: nth_append)
  qed
qed

lemma length_fold_update:
  "length (fold (\<lambda>(k, v) d. AList.update k v d) ps d) \<le> length d + length ps"
proof (induction ps arbitrary: d)
  case Nil
  show ?case by simp
next
  case (Cons p ps)
  obtain k v where p: "p = (k, v)" by (cases p)
  have "length (AList.update k v d) \<le> Suc (length d)"
    by (induction d) auto
  then show ?case
    using Cons [of "AList.update k v d"] p by simp
qed

text \<open>
  Claim C8: \<^verbatim>\<open>get_dictionary\<close> splits the header and the line at the separator, strips
  each field, and pairs the fields by position, up to the shorter of the two lists:
  the keys are the first header fields, as many as there are values at most, each
  once; a header field is paired with the value at its position (at its last position
  when it occurs more than once); when the header fields in use are distinct, the
  dictionary is exactly the list of positional pairs, in order. Header fields or values
  beyond the shorter list are dropped, and no error is raised for any input.
\<close>

theorem get_dictionary_pairs:
  assumes hs: "hs = map str_strip (str_split SEPARATOR hdr)"
    and vs: "vs = map str_strip (str_split SEPARATOR line)"
  shows "fst ` set (get_dictionary hdr line) = set (take (length vs) hs) \<and>
         distinct (map fst (get_dictionary hdr line)) \<and>
         length (get_dictionary hdr line) \<le> min (length hs) (length vs) \<and>
         (\<forall>i < min (length hs) (length vs).
            (\<forall>j. i < j \<and> j < min (length hs) (length vs) \<longrightarrow> hs ! j \<noteq> hs ! i) \<longrightarrow>
            map_of (get_dictionary hdr line) (hs ! i) = Some (vs ! i)) \<and>
         (distinct (take (length vs) hs) \<longrightarrow> get_dictionary hdr line = zip hs vs)"
proof -
  let ?ps = "zip hs vs"
  have d: "get_dictionary hdr line = dict_of ?ps"
    by (simp add: get_dictionary_def Let_def hs vs)
  have keys: "map fst ?ps = take (length vs) hs"
    by (simp add: map_fst_zip_take min_def take_all)
  have "fst ` set (dict_of ?ps) = fst ` set ?ps"
    by (simp add: dict_of_def keys_fold_update)
  also have "\<dots> = set (map fst ?ps)"
    by simp
  finally have a: "fst ` set (dict_of ?ps) = set (take (length vs) hs)"
    by (simp only: keys)
  have b: "distinct (map fst (dict_of ?ps))"
    unfolding dict_of_def by (rule distinct_fold_update) simp
  have c: "length (dict_of ?ps) \<le> min (length hs) (length vs)"
    using length_fold_update [of ?ps "[]"] by (simp add: dict_of_def)
  have e: "map_of (dict_of ?ps) (hs ! i) = Some (vs ! i)"
    if i: "i < min (length hs) (length vs)"
      and last: "\<forall>j. i < j \<and> j < min (length hs) (length vs) \<longrightarrow> hs ! j \<noteq> hs ! i" for i
  proof -
    have "map_of (rev ?ps) (fst (?ps ! i)) = Some (snd (?ps ! i))"
      using i last by (intro map_of_rev_last) simp_all
    then show ?thesis
      using i by (simp add: map_of_dict_of)
  qed
  have f: "dict_of ?ps = ?ps" if "distinct (take (length vs) hs)"
    using that by (intro dict_of_distinct) (simp only: keys)
  show ?thesis
    unfolding d using a b c e f by blast
qed

theorem get_dictionary_pairs_witness:
  "[''a'', ''b'', ''c''] = map str_strip (str_split SEPARATOR ''a,b , c\<newline>'') \<and>
   [''1'', ''2''] = map str_strip (str_split SEPARATOR '' 1 ,2\<newline>'') \<and>
   get_dictionary ''a,b , c\<newline>'' '' 1 ,2\<newline>'' = [(''a'', ''1''), (''b'', ''2'')] \<and>
   map_of (get_dictionary ''a,b , c\<newline>'' '' 1 ,2\<newline>'') ''b'' = Some ''2''"
proof -
  have hs: "[''a'', ''b'', ''c''] = map str_strip (str_split SEPARATOR ''a,b , c\<newline>'')"
    by (simp add: SEPARATOR_def str_strip_def isspace_def)
  have vs: "[''1'', ''2''] = map str_strip (str_split SEPARATOR '' 1 ,2\<newline>'')"
    by (simp add: SEPARATOR_def str_strip_def isspace_def)
  have d: "distinct (take (length [''1'', ''2'']) [''a'', ''b'', ''c''])"
    by simp
  have i: "(1::nat) < min (length [''a'', ''b'', ''c'']) (length [''1'', ''2''])"
    by simp
  have j: "\<forall>j. (1::nat) < j \<and> j < min (length [''a'', ''b'', ''c'']) (length [''1'', ''2'']) \<longrightarrow>
      [''a'', ''b'', ''c''] ! j \<noteq> [''a'', ''b'', ''c''] ! 1"
    by simp
  note t = get_dictionary_pairs [OF hs vs]
  have "get_dictionary ''a,b , c\<newline>'' '' 1 ,2\<newline>'' = zip [''a'', ''b'', ''c''] [''1'', ''2'']"
    by (rule t [THEN conjunct2, THEN conjunct2, THEN conjunct2, THEN conjunct2, THEN mp, OF d])
  then have z: "get_dictionary ''a,b , c\<newline>'' '' 1 ,2\<newline>'' = [(''a'', ''1''), (''b'', ''2'')]"
    by simp
  have "map_of (get_dictionary ''a,b , c\<newline>'' '' 1 ,2\<newline>'') ([''a'', ''b'', ''c''] ! 1)
      = Some ([''1'', ''2''] ! 1)"
    by (rule t [THEN conjunct2, THEN conjunct2, THEN conjunct2, THEN conjunct1,
          THEN spec, THEN mp, OF i, THEN mp, OF j])
  then have m: "map_of (get_dictionary ''a,b , c\<newline>'' '' 1 ,2\<newline>'') ''b'' = Some ''2''"
    by simp
  show ?thesis
    by (rule conjI [OF hs conjI [OF vs conjI [OF z m]]])
qed


end
